theory Spec2Isabelle
  imports Main "HOL-Library.Sublist"
begin

section \<open>The collaborators of the GUI project wrapper\<close>

text \<open>
  The wrapper \<^verbatim>\<open>ProjectListItem\<close> of \<^verbatim>\<open>stm32pio/gui/project.py\<close> stands between the
  front-end and one \<^verbatim>\<open>Stm32pio\<close> project. The project class, its stage enum, the
  \<^verbatim>\<open>Worker\<close> runnable and the \<^verbatim>\<open>LoggingWorker\<close> live in other modules; they appear here
  with just the attributes the wrapper reads and writes.
\<close>

datatype error = AttributeError | KeyError | ConstructionError

text \<open>
  Modelled from the spec: the enum \<^verbatim>\<open>stm32pio.core.state.ProjectStage\<close>, of which the
  wrapper names only the member \<^verbatim>\<open>UNDEFINED\<close>. The other members are the milestones of
  the spec's data model, in rank order; \<open>stage_name\<close> is the member's \<^verbatim>\<open>.name\<close>.
\<close>

datatype ProjectStage =
  UNDEFINED | EMPTY | INITIALIZED | GENERATED | TOOLCHAIN_READY | PATCHED | BUILT

fun stage_name :: "ProjectStage \<Rightarrow> string" where
  "stage_name UNDEFINED = ''UNDEFINED''"
| "stage_name EMPTY = ''EMPTY''"
| "stage_name INITIALIZED = ''INITIALIZED''"
| "stage_name GENERATED = ''GENERATED''"
| "stage_name TOOLCHAIN_READY = ''TOOLCHAIN_READY''"
| "stage_name PATCHED = ''PATCHED''"
| "stage_name BUILT = ''BUILT''"

text \<open>
  A \<^verbatim>\<open>ProjectState\<close> is an ordered dictionary from stages to flags: an association
  list in insertion order.
\<close>

type_synonym ProjectState = "(ProjectStage \<times> bool) list"

definition stages_by_rank :: "ProjectStage list" where
  "stages_by_rank = [EMPTY, INITIALIZED, GENERATED, TOOLCHAIN_READY, PATCHED, BUILT]"

text \<open>
  Modelled from the spec: the property \<^verbatim>\<open>ProjectState.current_stage\<close>. The stages are
  scanned from the highest rank to the lowest and the first one that is reached is
  returned; when none is, the lowest real stage.
\<close>

definition state_current_stage :: "ProjectState \<Rightarrow> ProjectStage" where
  "state_current_stage st =
     (case filter (\<lambda>s. map_of st s = Some True) (rev stages_by_rank) of
        [] \<Rightarrow> EMPTY
      | s # _ \<Rightarrow> s)"

text \<open>
  \<^verbatim>\<open>state.pop(key)\<close> without a default: \<^verbatim>\<open>KeyError\<close> when the key is missing, otherwise
  the dictionary without it.
\<close>

definition dict_pop :: "ProjectState \<Rightarrow> ProjectStage \<Rightarrow> error + ProjectState" where
  "dict_pop st k =
     (if k \<in> set (map fst st) then Inr (filter (\<lambda>(k', v). k' \<noteq> k) st) else Inl KeyError)"

text \<open>
  The underlying project, as far as the wrapper looks into it: \<^verbatim>\<open>project.path.name\<close>,
  \<^verbatim>\<open>str(project)\<close>, the \<^verbatim>\<open>state\<close> property (computed anew at every access, so a
  \<^verbatim>\<open>pop\<close> on the result never reaches the project), the items of the two \<^verbatim>\<open>config\<close>
  sections and the attribute names that \<^verbatim>\<open>getattr\<close> resolves.
\<close>

record Stm32pio =
  project_path_name :: string
  project_str :: string
  project_state :: ProjectState
  config_app :: "(string \<times> string) list"
  config_project :: "(string \<times> string) list"
  project_attrs :: "string list"

text \<open>
  The attributes that \<^verbatim>\<open>None\<close> itself has in Python 3: \<^verbatim>\<open>getattr(None, name)\<close>
  succeeds for these names and raises \<^verbatim>\<open>AttributeError\<close> for every other one.
\<close>

definition NoneType_attrs :: "string list" where
  "NoneType_attrs =
     [''__bool__'', ''__class__'', ''__delattr__'', ''__dir__'', ''__doc__'', ''__eq__'',
      ''__format__'', ''__ge__'', ''__getattribute__'', ''__getstate__'', ''__gt__'',
      ''__hash__'', ''__init__'', ''__init_subclass__'', ''__le__'', ''__lt__'', ''__ne__'',
      ''__new__'', ''__reduce__'', ''__reduce_ex__'', ''__repr__'', ''__setattr__'',
      ''__sizeof__'', ''__str__'', ''__subclasshook__'']"

definition getattr :: "Stm32pio option \<Rightarrow> string \<Rightarrow> error + string" where
  "getattr obj attr =
     (case obj of
        None \<Rightarrow> if attr \<in> set NoneType_attrs then Inr attr else Inl AttributeError
      | Some p \<Rightarrow> if attr \<in> set (project_attrs p) then Inr attr else Inl AttributeError)"

text \<open>
  Modelled from the spec: the runnable \<^verbatim>\<open>stm32pio.gui.util.Worker\<close>. It is built from
  the resolved callable and the argument list; \<open>func_name\<close> is the name it reports in
  its \<^verbatim>\<open>started\<close> and \<^verbatim>\<open>finished\<close> signals.
\<close>

record Worker =
  func_name :: string
  worker_args :: "string list"

text \<open>
  Qt's \<^verbatim>\<open>QThreadPool\<close>: \<open>active\<close> holds the runnables that a pool thread is
  executing, \<open>queue\<close> the ones waiting for a thread, oldest first (all runnables are
  started with the same priority). The thread limit of a new pool is the machine's ideal
  thread count; the wrapper overwrites it before it starts anything, and the model puts
  0 there.
\<close>

record QThreadPool =
  maxThreadCount :: int
  expiryTimeout :: int
  active :: "Worker list"
  queue :: "Worker list"

definition new_QThreadPool :: QThreadPool where
  "new_QThreadPool = \<lparr>maxThreadCount = 0, expiryTimeout = 30000, active = [], queue = []\<rparr>"

definition setMaxThreadCount :: "int \<Rightarrow> QThreadPool \<Rightarrow> QThreadPool" where
  "setMaxThreadCount n pool = pool\<lparr>maxThreadCount := n\<rparr>"

definition setExpiryTimeout :: "int \<Rightarrow> QThreadPool \<Rightarrow> QThreadPool" where
  "setExpiryTimeout n pool = pool\<lparr>expiryTimeout := n\<rparr>"

text \<open>
  \<^verbatim>\<open>start\<close> hands the runnable to a thread when fewer than \<^verbatim>\<open>maxThreadCount\<close> are
  busy and appends it to the queue otherwise.
\<close>

definition start :: "Worker \<Rightarrow> QThreadPool \<Rightarrow> QThreadPool" where
  "start w pool =
     (if int (length (active pool)) < maxThreadCount pool
      then pool\<lparr>active := active pool @ [w]\<rparr>
      else pool\<lparr>queue := queue pool @ [w]\<rparr>)"

definition clear :: "QThreadPool \<Rightarrow> QThreadPool" where
  "clear pool = pool\<lparr>queue := []\<rparr>"

text \<open>\<^verbatim>\<open>waitForDone(-1)\<close> returns once no runnable is running or waiting.\<close>

definition waitForDone_returns :: "QThreadPool \<Rightarrow> bool" where
  "waitForDone_returns pool \<longleftrightarrow> active pool = [] \<and> queue pool = []"

text \<open>
  A pool thread whose runnable has returned drops it and, when the thread limit allows,
  takes the oldest waiting runnable.
\<close>

definition runnable_done :: "QThreadPool \<Rightarrow> QThreadPool" where
  "runnable_done pool =
     (let rest = tl (active pool) in
      case queue pool of
        [] \<Rightarrow> pool\<lparr>active := rest\<rparr>
      | w # ws \<Rightarrow>
          if int (length rest) < maxThreadCount pool
          then pool\<lparr>active := rest @ [w], queue := ws\<rparr>
          else pool\<lparr>active := rest\<rparr>)"

text \<open>
  Modelled from the spec: the log relay \<^verbatim>\<open>stm32pio.gui.log.LoggingWorker\<close>, with the two
  events the wrapper sets and whether its thread has exited.
\<close>

record LoggingWorker =
  stopped :: bool
  can_flush_log :: bool
  thread_finished :: bool

text \<open>
  A \<^verbatim>\<open>weakref.finalize\<close> object: the callback \<^verbatim>\<open>at_exit\<close> with the name argument it was
  registered with, and whether it is still alive (it is called at most once).
\<close>

record finalize =
  alive :: bool
  finalize_name :: string

section \<open>The wrapper and its signals\<close>

text \<open>
  The attributes of \<^verbatim>\<open>ProjectListItem\<close>; a leading underscore of the source is written
  \<open>priv_\<close>.
\<close>

record ProjectListItem =
  priv_from_startup :: bool
  logging_worker :: LoggingWorker
  workers_pool :: QThreadPool
  priv_current_action :: string
  priv_last_action_succeed :: bool
  project :: "Stm32pio option"
  priv_name :: string
  priv_state :: "(string \<times> bool) list"
  priv_current_stage :: string
  qml_ready :: bool
  priv_finalizer :: "finalize option"

datatype signal =
  logAdded string int
| initialized
| nameChanged
| stateChanged
| stageChanged
| actionStarted string
| actionFinished string bool

text \<open>
  Where the initializer thread and the finalizer callback stand. Each blocks twice at
  most; the statements between two blocking calls run as one step.
\<close>

datatype init_pc = Init_constructing | Init_waiting | Init_done

datatype at_exit_pc = Exit_not_called | Exit_waitForDone | Exit_thread_wait | Exit_done

text \<open>
  The wrapper is a \<^verbatim>\<open>QObject\<close> of the owner's thread. A signal that another thread emits
  and that is connected to a slot or to a signal of the wrapper does not run it there:
  the call is put into the event queue of the owner's thread, and the event loop of
  that thread runs the queued calls one by one, in the order of the emissions.
\<close>

datatype queued_call =
    Call_actionStartedSlot string
  | Call_actionFinishedSlot string bool
  | Emit_stateChanged
  | Emit_stageChanged
  | Emit_logAdded string int

text \<open>
  The wrapper together with what it has sent out: every emitted signal is kept with the
  wrapper as a slot sees it at that moment, and \<open>module_log\<close> holds the records of
  \<^verbatim>\<open>module_logger\<close>. \<open>owner_queue\<close> holds the calls that wait for the owner's event
  loop, and \<open>invoking\<close> says that the running worker has emitted its start signal and
  is inside the project's operation.
\<close>

record world =
  item :: ProjectListItem
  emitted :: "(signal \<times> ProjectListItem) list"
  module_log :: "string list"
  init_args :: "string list"
  init_thread :: init_pc
  invoking :: bool
  owner_queue :: "queued_call list"
  at_exit_thread :: at_exit_pc

definition emit :: "signal \<Rightarrow> world \<Rightarrow> world" where
  "emit sig w = w\<lparr>emitted := emitted w @ [(sig, item w)]\<rparr>"

definition signals :: "world \<Rightarrow> signal list" where
  "signals w = map fst (emitted w)"

definition post :: "queued_call list \<Rightarrow> world \<Rightarrow> world" where
  "post calls w = w\<lparr>owner_queue := owner_queue w @ calls\<rparr>"

section \<open>The methods of the wrapper\<close>

text \<open>
  The constructor up to the start of the initializer thread. The logger and the keyword
  arguments it prepares for the project constructor do not reach any attribute read
  below and are left out.
\<close>

definition ProjectListItem_init :: "string list \<Rightarrow> bool \<Rightarrow> world" where
  "ProjectListItem_init project_args from_startup =
     \<lparr>item =
        \<lparr>priv_from_startup = from_startup,
         logging_worker = \<lparr>stopped = False, can_flush_log = False, thread_finished = False\<rparr>,
         workers_pool = setExpiryTimeout (- 1) (setMaxThreadCount 1 new_QThreadPool),
         priv_current_action = '''',
         priv_last_action_succeed = True,
         project = None,
         priv_name = ''Loading...'',
         priv_state = [(''LOADING'', True)],
         priv_current_stage = ''Loading...'',
         qml_ready = False,
         priv_finalizer = None\<rparr>,
      emitted = [],
      module_log = [],
      init_args = project_args,
      init_thread = Init_constructing,
      invoking = False,
      owner_queue = [],
      at_exit_thread = Exit_not_called\<rparr>"

definition fromStartup :: "ProjectListItem \<Rightarrow> bool" where
  "fromStartup self = priv_from_startup self"

definition config :: "ProjectListItem \<Rightarrow> (string \<times> (string \<times> string) list) list" where
  "config self =
     [(''app'', case project self of Some p \<Rightarrow> config_app p | None \<Rightarrow> []),
      (''project'', case project self of Some p \<Rightarrow> config_project p | None \<Rightarrow> [])]"

definition name :: "ProjectListItem \<Rightarrow> string" where
  "name self =
     (case project self of
        Some p \<Rightarrow> project_path_name p
      | None \<Rightarrow> priv_name self)"

text \<open>
  The \<^verbatim>\<open>state\<close> getter returns the dictionary or the exception, and the wrapper as the
  call leaves it: the cached stage is assigned before the \<^verbatim>\<open>pop\<close> that may raise.
\<close>

definition state :: "ProjectListItem \<Rightarrow> (error + (string \<times> bool) list) \<times> ProjectListItem" where
  "state self =
     (case project self of
        Some p \<Rightarrow>
          (let st = project_state p;
               self' = self\<lparr>priv_current_stage := stage_name (state_current_stage st)\<rparr>
           in case dict_pop st UNDEFINED of
                Inl e \<Rightarrow> (Inl e, self')
              | Inr st' \<Rightarrow> (Inr (map (\<lambda>(stage, v). (stage_name stage, v)) st'), self'))
      | None \<Rightarrow> (Inr (priv_state self), self))"

definition currentStage :: "ProjectListItem \<Rightarrow> string \<times> ProjectListItem" where
  "currentStage self = (priv_current_stage self, self)"

definition currentAction :: "ProjectListItem \<Rightarrow> string" where
  "currentAction self = priv_current_action self"

definition lastActionSucceed :: "ProjectListItem \<Rightarrow> bool" where
  "lastActionSucceed self = priv_last_action_succeed self"

definition actionStartedSlot :: "string \<Rightarrow> world \<Rightarrow> world" where
  "actionStartedSlot action w =
     emit (actionStarted action) (w\<lparr>item := (item w)\<lparr>priv_current_action := action\<rparr>\<rparr>)"

definition actionFinishedSlot :: "string \<Rightarrow> bool \<Rightarrow> world \<Rightarrow> world" where
  "actionFinishedSlot action success w =
     (let w1 = w\<lparr>item := (item w)\<lparr>priv_last_action_succeed := success\<rparr>\<rparr>;
          w2 = (if \<not> success
                then w1\<lparr>item := (item w1)\<lparr>workers_pool := clear (workers_pool (item w1))\<rparr>\<rparr>
                else w1);
          w3 = emit (actionFinished action success) w2
      in w3\<lparr>item := (item w3)\<lparr>priv_current_action := ''''\<rparr>\<rparr>)"

definition qmlLoaded :: "ProjectListItem \<Rightarrow> ProjectListItem" where
  "qmlLoaded self =
     self\<lparr>qml_ready := True,
          logging_worker := (logging_worker self)\<lparr>can_flush_log := True\<rparr>\<rparr>"

text \<open>
  \<^verbatim>\<open>run\<close> resolves the action on the project first; when that raises, nothing has been
  changed. The four \<^verbatim>\<open>connect\<close> calls are the calls that \<open>worker_started\<close> and
  \<open>worker_finished\<close> below put into the owner's queue.
\<close>

definition run :: "string \<Rightarrow> string list \<Rightarrow> ProjectListItem \<Rightarrow> error + ProjectListItem" where
  "run action args self =
     (case getattr (project self) action of
        Inl e \<Rightarrow> Inl e
      | Inr func \<Rightarrow>
          Inr (self\<lparr>workers_pool :=
                      start \<lparr>func_name = func, worker_args = args\<rparr> (workers_pool self)\<rparr>))"

text \<open>
  \<^verbatim>\<open>init_project\<close> from its start to the call of \<^verbatim>\<open>qml_ready.wait()\<close>; the argument
  \<open>result\<close> is what the project constructor did, return a project or raise.
\<close>

definition init_project_construct ::
    "string list \<Rightarrow> error + Stm32pio \<Rightarrow> ProjectListItem \<Rightarrow> ProjectListItem" where
  "init_project_construct args result self =
     (let self1 =
        (case result of
           Inr p \<Rightarrow>
             self\<lparr>project := Some p, priv_name := ''Project'', priv_state := [],
                  priv_current_stage := ''Initialized''\<rparr>
         | Inl e \<Rightarrow>
             self\<lparr>priv_name := (if length args \<noteq> 0 then hd args else ''Undefined''),
                  priv_state := [(''INIT_ERROR'', True)],
                  priv_current_stage := ''Initializing error''\<rparr>)
      in self1\<lparr>priv_finalizer :=
                 Some \<lparr>alive = True,
                       finalize_name =
                         (case project self1 of None \<Rightarrow> name self1 | Some p \<Rightarrow> project_str p)\<rparr>\<rparr>)"

text \<open>\<^verbatim>\<open>init_project\<close> after \<^verbatim>\<open>qml_ready.wait()\<close> has returned.\<close>

definition init_project_notify :: "world \<Rightarrow> world" where
  "init_project_notify w =
     emit stateChanged (emit stageChanged (emit nameChanged (emit initialized w)))"

text \<open>
  \<^verbatim>\<open>at_exit\<close> between the return of \<^verbatim>\<open>waitForDone\<close> and the call of \<^verbatim>\<open>thread.wait()\<close>,
  and after that call has returned.
\<close>

definition at_exit_stop :: "world \<Rightarrow> world" where
  "at_exit_stop w =
     w\<lparr>item := (item w)\<lparr>logging_worker := (logging_worker (item w))\<lparr>stopped := True\<rparr>\<rparr>\<rparr>"

definition at_exit_log :: "string \<Rightarrow> world \<Rightarrow> world" where
  "at_exit_log nm w = w\<lparr>module_log := module_log w @ [''destroyed '' @ nm]\<rparr>"

text \<open>
  Modelled from the spec: \<^verbatim>\<open>Worker.run\<close>. The worker emits \<^verbatim>\<open>started\<close> before it
  invokes the operation and \<^verbatim>\<open>finished\<close> with the result after it. It does so in a pool
  thread; \<^verbatim>\<open>run\<close> has created it in the owner's thread and connected the first signal
  to \<^verbatim>\<open>actionStartedSlot\<close> and the second to \<^verbatim>\<open>actionFinishedSlot\<close>, \<^verbatim>\<open>stateChanged\<close> and
  \<^verbatim>\<open>stageChanged\<close> of the wrapper, so each emission queues these calls for the owner's
  thread, in the order of the connections.
\<close>

definition worker_started :: "Worker \<Rightarrow> world \<Rightarrow> world" where
  "worker_started wk w = post [Call_actionStartedSlot (func_name wk)] w"

definition worker_finished :: "Worker \<Rightarrow> bool \<Rightarrow> world \<Rightarrow> world" where
  "worker_finished wk success w =
     post [Call_actionFinishedSlot (func_name wk) success, Emit_stateChanged,
           Emit_stageChanged] w"

text \<open>
  The owner's event loop runs a queued call: the slot with the arguments of the signal,
  or the emission of the wrapper's signal that the worker's or the logging worker's
  signal is connected to. \<open>announces\<close> is the signal of the wrapper that the call emits.
\<close>

fun deliver :: "queued_call \<Rightarrow> world \<Rightarrow> world" where
  "deliver (Call_actionStartedSlot action) w = actionStartedSlot action w"
| "deliver (Call_actionFinishedSlot action success) w = actionFinishedSlot action success w"
| "deliver Emit_stateChanged w = emit stateChanged w"
| "deliver Emit_stageChanged w = emit stageChanged w"
| "deliver (Emit_logAdded message level) w = emit (logAdded message level) w"

fun announces :: "queued_call \<Rightarrow> signal" where
  "announces (Call_actionStartedSlot action) = actionStarted action"
| "announces (Call_actionFinishedSlot action success) = actionFinished action success"
| "announces Emit_stateChanged = stateChanged"
| "announces Emit_stageChanged = stageChanged"
| "announces (Emit_logAdded message level) = logAdded message level"

section \<open>The wrapper among its threads\<close>

text \<open>
  What can happen to one wrapper, one step per call or per stretch of a thread between
  two blocking points: the calls of the front-end (the slots \<^verbatim>\<open>qmlLoaded\<close> and \<^verbatim>\<open>run\<close>
  and the property getters) and the owner's event loop running the next queued call,
  both in the owner's thread; the initializer thread; the pool thread running a worker;
  the logging thread; and the runtime calling the finalizer when it reclaims the wrapper
  or exits. A step carries what the outside decides: the result of the project
  constructor, the result of an operation and the project as the operation leaves it.
  The pool thread only queues the calls of the slots: between the start signal of a
  worker and the run of \<^verbatim>\<open>actionStartedSlot\<close>, and between its finish signal and the run
  of \<^verbatim>\<open>actionFinishedSlot\<close>, any other step can be taken, also the next worker's start.
\<close>

datatype label =
    Call_qmlLoaded
  | Call_run string "string list"
  | Get_state
  | Get_name
  | Get_currentStage
  | Get_currentAction
  | Get_lastActionSucceed
  | Get_fromStartup
  | Get_config
  | Owner_deliver
  | Init_construct "error + Stm32pio"
  | Init_notify
  | Worker_start
  | Worker_finish bool Stm32pio
  | Log_send string int
  | Log_thread_exit
  | Finalizer_called
  | At_exit_stop
  | At_exit_log

text \<open>
  \<open>step l w\<close> is \<open>None\<close> when the step cannot be taken in \<open>w\<close>: the thread is
  blocked or not at that point, or the call raises before it has changed anything
  (\<^verbatim>\<open>run\<close> on a name that does not resolve).
\<close>

fun step :: "label \<Rightarrow> world \<Rightarrow> world option" where
  "step Call_qmlLoaded w = Some (w\<lparr>item := qmlLoaded (item w)\<rparr>)"
| "step (Call_run action args) w =
     (case run action args (item w) of
        Inl e \<Rightarrow> None
      | Inr self' \<Rightarrow> Some (w\<lparr>item := self'\<rparr>))"
| "step Get_state w = Some (w\<lparr>item := snd (state (item w))\<rparr>)"
| "step Get_name w = Some w"
| "step Get_currentStage w = Some (w\<lparr>item := snd (currentStage (item w))\<rparr>)"
| "step Get_currentAction w = Some w"
| "step Get_lastActionSucceed w = Some w"
| "step Get_fromStartup w = Some w"
| "step Get_config w = Some w"
| "step Owner_deliver w =
     (case owner_queue w of
        [] \<Rightarrow> None
      | call # calls \<Rightarrow> Some (deliver call (w\<lparr>owner_queue := calls\<rparr>)))"
| "step (Init_construct result) w =
     (if init_thread w = Init_constructing
      then Some (w\<lparr>item := init_project_construct (init_args w) result (item w),
                   init_thread := Init_waiting\<rparr>)
      else None)"
| "step Init_notify w =
     (if init_thread w = Init_waiting \<and> qml_ready (item w)
      then Some ((init_project_notify w)\<lparr>init_thread := Init_done\<rparr>)
      else None)"
| "step Worker_start w =
     (case active (workers_pool (item w)) of
        [] \<Rightarrow> None
      | wk # _ \<Rightarrow>
          if invoking w then None
          else Some ((worker_started wk w)\<lparr>invoking := True\<rparr>))"
| "step (Worker_finish success p') w =
     (case active (workers_pool (item w)) of
        [] \<Rightarrow> None
      | wk # _ \<Rightarrow>
          if \<not> invoking w then None
          else
            (let w1 = w\<lparr>item := (item w)\<lparr>project := map_option (\<lambda>_. p') (project (item w))\<rparr>\<rparr>;
                 w2 = worker_finished wk success w1
             in Some (w2\<lparr>item := (item w2)\<lparr>workers_pool := runnable_done (workers_pool (item w2))\<rparr>,
                         invoking := False\<rparr>)))"
| "step (Log_send message level) w =
     (if thread_finished (logging_worker (item w)) then None
      else Some (post [Emit_logAdded message level] w))"
| "step Log_thread_exit w =
     (if stopped (logging_worker (item w)) \<and> \<not> thread_finished (logging_worker (item w))
      then Some (w\<lparr>item := (item w)\<lparr>logging_worker :=
                                        (logging_worker (item w))\<lparr>thread_finished := True\<rparr>\<rparr>\<rparr>)
      else None)"
| "step Finalizer_called w =
     (case priv_finalizer (item w) of
        None \<Rightarrow> None
      | Some f \<Rightarrow>
          if alive f
          then Some (w\<lparr>item := (item w)\<lparr>priv_finalizer := Some (f\<lparr>alive := False\<rparr>)\<rparr>,
                       at_exit_thread := Exit_waitForDone\<rparr>)
          else None)"
| "step At_exit_stop w =
     (if at_exit_thread w = Exit_waitForDone \<and> waitForDone_returns (workers_pool (item w))
      then Some ((at_exit_stop w)\<lparr>at_exit_thread := Exit_thread_wait\<rparr>)
      else None)"
| "step At_exit_log w =
     (case priv_finalizer (item w) of
        None \<Rightarrow> None
      | Some f \<Rightarrow>
          if at_exit_thread w = Exit_thread_wait \<and> thread_finished (logging_worker (item w))
          then Some ((at_exit_log (finalize_name f) w)\<lparr>at_exit_thread := Exit_done\<rparr>)
          else None)"

fun exec :: "label list \<Rightarrow> world \<Rightarrow> world option" where
  "exec [] w = Some w"
| "exec (l # ls) w = (case step l w of None \<Rightarrow> None | Some w' \<Rightarrow> exec ls w')"

text \<open>The names handed to \<^verbatim>\<open>run\<close>, and the names in the finish signals, in order.\<close>

fun submitted :: "label list \<Rightarrow> string list" where
  "submitted [] = []"
| "submitted (Call_run action args # ls) = action # submitted ls"
| "submitted (l # ls) = submitted ls"

fun finished :: "signal list \<Rightarrow> string list" where
  "finished [] = []"
| "finished (actionFinished action success # sigs) = action # finished sigs"
| "finished (sig # sigs) = finished sigs"

text \<open>
  Reading the start and finish signals from left to right with the action in flight in
  hand: a start needs none in flight, a finish needs its own action in flight. The
  result is the action in flight at the end, or \<open>None\<close> when the signals do not pair up.
\<close>

fun in_flight :: "signal list \<Rightarrow> string option \<Rightarrow> string option option" where
  "in_flight [] cur = Some cur"
| "in_flight (actionStarted action # sigs) cur =
     (if cur = None then in_flight sigs (Some action) else None)"
| "in_flight (actionFinished action success # sigs) cur =
     (if cur = Some action then in_flight sigs None else None)"
| "in_flight (sig # sigs) cur = in_flight sigs cur"

section \<open>What the properties are stated with\<close>

text \<open>The workers the pool holds, the running one first, by name.\<close>

definition pending :: "world \<Rightarrow> string list" where
  "pending w = map func_name (active (workers_pool (item w)) @ queue (workers_pool (item w)))"

text \<open>
  The pool never runs two workers, and nothing waits while no worker runs.
\<close>

definition single_worker :: "world \<Rightarrow> bool" where
  "single_worker w \<longleftrightarrow>
     maxThreadCount (workers_pool (item w)) = 1 \<and>
     length (active (workers_pool (item w))) \<le> 1 \<and>
     (active (workers_pool (item w)) = [] \<longrightarrow>
        queue (workers_pool (item w)) = [] \<and> \<not> invoking w)"

text \<open>The signals that the calls waiting in the owner's queue are going to emit.\<close>

definition posted :: "world \<Rightarrow> signal list" where
  "posted w = map announces (owner_queue w)"

text \<open>
  Between the start signal and the finish signal of an action the wrapper shows the
  action's name.
\<close>

definition action_shown :: "world \<Rightarrow> bool" where
  "action_shown w \<longleftrightarrow>
     (\<forall>action. in_flight (signals w) None = Some (Some action) \<longrightarrow>
        priv_current_action (item w) = action)"

text \<open>
  The start and finish signals sent so far, followed by the ones still waiting in the
  owner's queue, pair up around the running worker.
\<close>

definition paired :: "world \<Rightarrow> bool" where
  "paired w \<longleftrightarrow>
     in_flight (signals w @ posted w) None =
       Some (if invoking w then Some (func_name (hd (active (workers_pool (item w)))))
             else None)"

text \<open>
  The action that has to be in flight before the signals \<open>sigs\<close> for them to pair up:
  none before a start, the action itself before its finish, and \<open>cur\<close> when \<open>sigs\<close>
  holds neither.
\<close>

fun next_in_flight :: "signal list \<Rightarrow> string option \<Rightarrow> string option" where
  "next_in_flight [] cur = cur"
| "next_in_flight (actionStarted action # sigs) cur = None"
| "next_in_flight (actionFinished action success # sigs) cur = Some action"
| "next_in_flight (sig # sigs) cur = next_in_flight sigs cur"

text \<open>
  What a slot connected to a signal finds when it queries the wrapper: \<open>seen view w\<close>
  holds when every signal sent so far was sent with the wrapper in a state that \<open>view\<close>
  accepts for it.
\<close>

definition seen :: "(signal \<Rightarrow> ProjectListItem \<Rightarrow> bool) \<Rightarrow> world \<Rightarrow> bool" where
  "seen view w = list_all (\<lambda>(sig, snap). view sig snap) (emitted w)"


fun action_view :: "signal \<Rightarrow> ProjectListItem \<Rightarrow> bool" where
  "action_view (actionStarted action) snap = (currentAction snap = action)"
| "action_view (actionFinished action success) snap =
     (currentAction snap = action \<and> lastActionSucceed snap = success)"
| "action_view sig snap = True"




definition no_finish_succeed :: "world \<Rightarrow> bool" where
  "no_finish_succeed w \<longleftrightarrow>
     (finished (signals w) = [] \<longrightarrow> priv_last_action_succeed (item w))"

text \<open>The name the wrapper falls back to when the project cannot be constructed.\<close>

definition fallback_name :: "string list \<Rightarrow> string" where
  "fallback_name args = (case args of [] \<Rightarrow> ''Undefined'' | a # _ \<Rightarrow> a)"

definition still_loading :: "string list \<Rightarrow> world \<Rightarrow> bool" where
  "still_loading args w \<longleftrightarrow>
     init_args w = args \<and> (init_thread w = Init_constructing \<longrightarrow> project (item w) = None)"

definition init_failed :: "string list \<Rightarrow> world \<Rightarrow> bool" where
  "init_failed args w \<longleftrightarrow>
     init_thread w \<noteq> Init_constructing \<and> project (item w) = None \<and>
     priv_state (item w) = [(''INIT_ERROR'', True)] \<and>
     priv_name (item w) = fallback_name args"

text \<open>
  The steps that belong to the teardown, the order the source gives them, and how far
  the teardown has come in a state.
\<close>

fun teardown_label :: "label \<Rightarrow> bool" where
  "teardown_label Finalizer_called = True"
| "teardown_label At_exit_stop = True"
| "teardown_label Log_thread_exit = True"
| "teardown_label At_exit_log = True"
| "teardown_label l = False"

definition teardown_order :: "label list" where
  "teardown_order = [Finalizer_called, At_exit_stop, Log_thread_exit, At_exit_log]"

definition teardown_steps :: "world \<Rightarrow> label list" where
  "teardown_steps w =
     (case at_exit_thread w of
        Exit_not_called \<Rightarrow> []
      | Exit_waitForDone \<Rightarrow> take 1 teardown_order
      | Exit_thread_wait \<Rightarrow>
          if thread_finished (logging_worker (item w)) then take 3 teardown_order
          else take 2 teardown_order
      | Exit_done \<Rightarrow> teardown_order)"

fun finalizer_alive :: "finalize option \<Rightarrow> bool" where
  "finalizer_alive None = True"
| "finalizer_alive (Some f) = alive f"

fun finalizer_name :: "finalize option \<Rightarrow> string" where
  "finalizer_name None = []"
| "finalizer_name (Some f) = finalize_name f"

definition teardown_state :: "world \<Rightarrow> bool" where
  "teardown_state w \<longleftrightarrow>
     (stopped (logging_worker (item w)) \<longleftrightarrow>
        at_exit_thread w = Exit_thread_wait \<or> at_exit_thread w = Exit_done) \<and>
     (thread_finished (logging_worker (item w)) \<longrightarrow> stopped (logging_worker (item w))) \<and>
     (at_exit_thread w = Exit_done \<longrightarrow> thread_finished (logging_worker (item w))) \<and>
     (init_thread w = Init_constructing \<longleftrightarrow> priv_finalizer (item w) = None) \<and>
     (at_exit_thread w = Exit_not_called \<longleftrightarrow> finalizer_alive (priv_finalizer (item w))) \<and>
     (at_exit_thread w = Exit_done \<longrightarrow>
        module_log w = [''destroyed '' @ finalizer_name (priv_finalizer (item w))]) \<and>
     (at_exit_thread w \<noteq> Exit_done \<longrightarrow> module_log w = [])"

text \<open>A project and a fresh wrapper to run the model on.\<close>

definition example_project :: Stm32pio where
  "example_project =
     \<lparr>project_path_name = ''blinky'',
      project_str = ''Stm32pio project: blinky'',
      project_state = [(UNDEFINED, True), (EMPTY, True), (INITIALIZED, False)],
      config_app = [],
      config_project = [],
      project_attrs = [''build'', ''clean'']\<rparr>"

definition example_item :: world where
  "example_item = ProjectListItem_init [''/tmp/blinky''] False"

definition state_answer :: "world \<Rightarrow> error + (string \<times> bool) list" where
  "state_answer w = fst (state (item w))"

definition shown_action :: "world \<Rightarrow> string" where
  "shown_action w = currentAction (item w)"

section \<open>Executions and their invariants\<close>

lemma exec_append:
  "exec (ls @ ms) w = (case exec ls w of None \<Rightarrow> None | Some w' \<Rightarrow> exec ms w')"
  by (induction ls arbitrary: w) (auto split: option.splits)

lemma exec_snoc:
  "exec (ls @ [l]) w0 = Some w' \<longleftrightarrow> (\<exists>w. exec ls w0 = Some w \<and> step l w = Some w')"
  by (auto simp: exec_append split: option.splits)

lemma exec_invariant:
  assumes "exec ls w0 = Some w" and "P w0"
    and "\<And>l w w'. P w \<Longrightarrow> step l w = Some w' \<Longrightarrow> P w'"
  shows "P w"
  using assms(1,2)
proof (induction ls arbitrary: w0)
  case Nil
  then show ?case by simp
next
  case (Cons l ls)
  then show ?case using assms(3) by (auto split: option.splits)
qed

lemma step_deliver:
  assumes "step Owner_deliver w = Some w'"
  shows "\<exists>call calls. owner_queue w = call # calls \<and>
                      w' = deliver call (w\<lparr>owner_queue := calls\<rparr>)"
  using assms by (auto split: list.splits)

lemma finished_append: "finished (xs @ ys) = finished xs @ finished ys"
  by (induction xs rule: finished.induct) auto

lemma in_flight_append:
  "in_flight (xs @ ys) cur =
     (case in_flight xs cur of None \<Rightarrow> None | Some cur' \<Rightarrow> in_flight ys cur')"
  by (induction xs cur rule: in_flight.induct) auto

lemma in_flight_next:
  "in_flight sigs cur = Some cur' \<Longrightarrow> cur = next_in_flight sigs cur'"
  by (induction sigs cur rule: in_flight.induct) (auto split: if_splits)

lemma submitted_append: "submitted (ls @ ms) = submitted ls @ submitted ms"
  by (induction ls rule: submitted.induct) auto

lemma subseq_drop_tail: "subseq (xs @ ys) (xs @ ys @ zs)"
  using list_emb_prefix [of "(=)" "xs @ ys" "xs @ ys" zs] by simp

lemma getattr_Inr: "getattr obj attr = Inr func \<Longrightarrow> func = attr"
  by (auto simp: getattr_def split: option.splits if_splits)

lemma stage_name_UNDEFINED:
  "stage_name s = ''UNDEFINED'' \<longleftrightarrow> s = UNDEFINED"
  "''UNDEFINED'' = stage_name s \<longleftrightarrow> s = UNDEFINED"
  by (cases s; simp)+

lemmas slot_defs = actionStartedSlot_def actionFinishedSlot_def worker_started_def
  worker_finished_def emit_def post_def init_project_notify_def at_exit_stop_def
  at_exit_log_def qmlLoaded_def run_def state_def currentStage_def
  init_project_construct_def Let_def

lemmas pool_defs = start_def clear_def runnable_done_def setMaxThreadCount_def
  setExpiryTimeout_def new_QThreadPool_def waitForDone_returns_def

subsection \<open>One worker at a time\<close>

lemma single_worker_init: "single_worker (ProjectListItem_init project_args from_startup)"
  by (simp add: single_worker_def ProjectListItem_init_def pool_defs)

lemma single_worker_step:
  assumes "single_worker w" and "step l w = Some w'"
  shows "single_worker w'"
proof (cases l)
  case Owner_deliver
  from step_deliver [OF assms(2) [unfolded Owner_deliver]] obtain call calls
    where w': "w' = deliver call (w\<lparr>owner_queue := calls\<rparr>)"
    by blast
  from assms(1) show ?thesis
    unfolding w' by (cases call) (auto simp: single_worker_def slot_defs pool_defs)
qed (use assms in \<open>auto simp: single_worker_def slot_defs pool_defs
                         split: if_splits option.splits list.splits sum.splits\<close>)

lemma single_worker_exec:
  assumes "exec ls (ProjectListItem_init project_args from_startup) = Some w"
  shows "single_worker w"
  using assms single_worker_init by (rule exec_invariant) (rule single_worker_step)

lemma step_order:
  assumes "single_worker w" and "step l w = Some w'"
  shows "subseq (finished (signals w' @ posted w') @ pending w')
           ((finished (signals w @ posted w) @ pending w) @ submitted [l])"
proof (cases l)
  case Owner_deliver
  from step_deliver [OF assms(2) [unfolded Owner_deliver]] obtain call calls
    where q: "owner_queue w = call # calls"
      and w': "w' = deliver call (w\<lparr>owner_queue := calls\<rparr>)"
    by blast
  from q show ?thesis
    unfolding w' Owner_deliver
    by (cases call)
       (auto simp: pending_def posted_def signals_def finished_append slot_defs pool_defs
                   subseq_drop_tail)
qed (use assms in \<open>auto simp: single_worker_def pending_def posted_def signals_def
                               finished_append slot_defs pool_defs
                         dest: getattr_Inr
                         split: if_splits option.splits list.splits sum.splits\<close>)

lemma exec_order:
  assumes "exec ls (ProjectListItem_init project_args from_startup) = Some w"
  shows "subseq (finished (signals w @ posted w) @ pending w) (submitted ls)"
  using assms
proof (induction ls arbitrary: w rule: rev_induct)
  case Nil
  then show ?case
    by (auto simp: ProjectListItem_init_def pending_def posted_def signals_def pool_defs)
next
  case (snoc l ls)
  then obtain v where v: "exec ls (ProjectListItem_init project_args from_startup) = Some v"
    and s: "step l v = Some w"
    by (auto simp: exec_snoc)
  have "single_worker v"
    using v by (rule single_worker_exec)
  then have "subseq (finished (signals w @ posted w) @ pending w)
               ((finished (signals v @ posted v) @ pending v) @ submitted [l])"
    using s by (rule step_order)
  moreover have "subseq ((finished (signals v @ posted v) @ pending v) @ submitted [l])
                   (submitted ls @ submitted [l])"
    using list_emb_append_mono [OF snoc.IH [OF v], of "submitted [l]" "submitted [l]"] by simp
  ultimately show ?case
    by (metis submitted_append subseq_order.order_trans)
qed

lemma paired_step:
  assumes "paired w" and "single_worker w" and "step l w = Some w'"
  shows "paired w'"
proof (cases l)
  case Owner_deliver
  from step_deliver [OF assms(3) [unfolded Owner_deliver]] obtain call calls
    where q: "owner_queue w = call # calls"
      and w': "w' = deliver call (w\<lparr>owner_queue := calls\<rparr>)"
    by blast
  from assms(1) q show ?thesis
    unfolding w'
    by (cases call) (auto simp: paired_def posted_def signals_def slot_defs pool_defs)
qed (use assms in \<open>auto simp: paired_def single_worker_def posted_def signals_def
                               in_flight_append slot_defs pool_defs
                         split: if_splits option.splits list.splits sum.splits\<close>)

lemma paired_exec:
  assumes "exec ls (ProjectListItem_init project_args from_startup) = Some w"
  shows "paired w"
  using assms
proof (induction ls arbitrary: w rule: rev_induct)
  case Nil
  then show ?case
    by (auto simp: ProjectListItem_init_def paired_def posted_def signals_def)
next
  case (snoc l ls)
  then obtain v where v: "exec ls (ProjectListItem_init project_args from_startup) = Some v"
    and s: "step l v = Some w"
    by (auto simp: exec_snoc)
  from snoc.IH [OF v] single_worker_exec [OF v] s show ?case
    by (rule paired_step)
qed

lemma action_shown_init: "action_shown (ProjectListItem_init project_args from_startup)"
  by (simp add: action_shown_def signals_def ProjectListItem_init_def)

lemma action_shown_step:
  assumes "action_shown w" and "step l w = Some w'"
  shows "action_shown w'"
proof (cases l)
  case Owner_deliver
  from step_deliver [OF assms(2) [unfolded Owner_deliver]] obtain call calls
    where w': "w' = deliver call (w\<lparr>owner_queue := calls\<rparr>)"
    by blast
  from assms(1) show ?thesis
    unfolding w'
    by (cases call)
       (auto simp: action_shown_def signals_def in_flight_append slot_defs
             split: if_splits option.splits)
qed (use assms in \<open>auto simp: action_shown_def signals_def in_flight_append slot_defs
                         split: if_splits option.splits list.splits sum.splits\<close>)

lemma action_shown_exec:
  assumes "exec ls (ProjectListItem_init project_args from_startup) = Some w"
  shows "action_shown w"
  using assms action_shown_init by (rule exec_invariant) (rule action_shown_step)

subsection \<open>What the slots of a signal see\<close>


lemma action_view_step:
  assumes "seen action_view w" and "action_shown w" and "paired w"
    and "step l w = Some w'"
  shows "seen action_view w'"
proof (cases l)
  case Owner_deliver
  from step_deliver [OF assms(4) [unfolded Owner_deliver]] obtain call calls
    where q: "owner_queue w = call # calls"
      and w': "w' = deliver call (w\<lparr>owner_queue := calls\<rparr>)"
    by blast
  from assms(1,2,3) q show ?thesis
    unfolding w'
    by (cases call)
       (auto simp: seen_def action_shown_def paired_def posted_def in_flight_append slot_defs
                   currentAction_def lastActionSucceed_def
             split: if_splits option.splits)
qed (use assms in \<open>auto simp: seen_def slot_defs pool_defs
                         split: if_splits option.splits list.splits sum.splits\<close>)

lemma action_view_exec:
  assumes "exec ls (ProjectListItem_init project_args from_startup) = Some w"
  shows "seen action_view w"
  using assms
proof (induction ls arbitrary: w rule: rev_induct)
  case Nil
  then show ?case
    by (auto simp: ProjectListItem_init_def seen_def)
next
  case (snoc l ls)
  then obtain v where v: "exec ls (ProjectListItem_init project_args from_startup) = Some v"
    and s: "step l v = Some w"
    by (auto simp: exec_snoc)
  from snoc.IH [OF v] action_shown_exec [OF v] paired_exec [OF v] s show ?case
    by (rule action_view_step)
qed

subsection \<open>Initialization\<close>



lemma still_loading_step:
  assumes "still_loading args w" and "step l w = Some w'"
  shows "still_loading args w'"
proof (cases l)
  case Owner_deliver
  from step_deliver [OF assms(2) [unfolded Owner_deliver]] obtain call calls
    where w': "w' = deliver call (w\<lparr>owner_queue := calls\<rparr>)"
    by blast
  from assms(1) show ?thesis
    unfolding w' by (cases call) (auto simp: still_loading_def slot_defs)
qed (use assms in \<open>auto simp: still_loading_def slot_defs
                         split: if_splits option.splits list.splits sum.splits\<close>)

lemma init_failed_step:
  assumes "init_failed args w" and "step l w = Some w'"
  shows "init_failed args w'"
proof (cases l)
  case Owner_deliver
  from step_deliver [OF assms(2) [unfolded Owner_deliver]] obtain call calls
    where w': "w' = deliver call (w\<lparr>owner_queue := calls\<rparr>)"
    by blast
  from assms(1) show ?thesis
    unfolding w' by (cases call) (auto simp: init_failed_def slot_defs)
qed (use assms in \<open>auto simp: init_failed_def slot_defs
                         split: if_splits option.splits list.splits sum.splits\<close>)

lemma init_failed_construct:
  "still_loading args w \<Longrightarrow> step (Init_construct (Inl e)) w = Some w' \<Longrightarrow>
   init_failed args w'"
  by (cases args)
     (auto simp: still_loading_def init_failed_def fallback_name_def
                 init_project_construct_def Let_def
           split: if_splits)

lemma no_finish_succeed_step:
  assumes "no_finish_succeed w" and "step l w = Some w'"
  shows "no_finish_succeed w'"
proof (cases l)
  case Owner_deliver
  from step_deliver [OF assms(2) [unfolded Owner_deliver]] obtain call calls
    where w': "w' = deliver call (w\<lparr>owner_queue := calls\<rparr>)"
    by blast
  from assms(1) show ?thesis
    unfolding w'
    by (cases call) (auto simp: no_finish_succeed_def signals_def finished_append slot_defs)
qed (use assms in \<open>auto simp: no_finish_succeed_def signals_def finished_append slot_defs
                         split: if_splits option.splits list.splits sum.splits\<close>)

subsection \<open>Teardown\<close>

lemma teardown_state_init: "teardown_state (ProjectListItem_init project_args from_startup)"
  by (simp add: teardown_state_def ProjectListItem_init_def)

lemma teardown_frame:
  assumes "step l w = Some w'" and "\<not> teardown_label l"
    and "\<forall>result. l \<noteq> Init_construct result"
  shows "stopped (logging_worker (item w')) = stopped (logging_worker (item w)) \<and>
         thread_finished (logging_worker (item w')) = thread_finished (logging_worker (item w)) \<and>
         at_exit_thread w' = at_exit_thread w \<and>
         priv_finalizer (item w') = priv_finalizer (item w) \<and>
         module_log w' = module_log w \<and>
         (init_thread w' = Init_constructing) = (init_thread w = Init_constructing)"
proof (cases l)
  case Owner_deliver
  from step_deliver [OF assms(1) [unfolded Owner_deliver]] obtain call calls
    where w': "w' = deliver call (w\<lparr>owner_queue := calls\<rparr>)"
    by blast
  show ?thesis
    unfolding w' by (cases call) (auto simp: slot_defs)
qed (use assms in \<open>auto simp: slot_defs
                         split: if_splits list.splits sum.splits option.splits\<close>)

lemma teardown_state_step:
  assumes "teardown_state w" and "step l w = Some w'"
  shows "teardown_state w'"
proof (cases "teardown_label l \<or> (\<exists>result. l = Init_construct result)")
  case False
  with teardown_frame [OF assms(2)] assms(1) show ?thesis
    by (auto simp: teardown_state_def)
next
  case True
  then consider "l = Finalizer_called" | "l = At_exit_stop" | "l = Log_thread_exit"
    | "l = At_exit_log" | result where "l = Init_construct result"
    by (cases l) auto
  then show ?thesis
  proof cases
    case 1
    with assms show ?thesis
      by (cases "priv_finalizer (item w)") (auto simp: teardown_state_def split: if_splits)
  next
    case 2
    with assms show ?thesis
      by (auto simp: teardown_state_def at_exit_stop_def split: if_splits)
  next
    case 3
    with assms show ?thesis
      by (auto simp: teardown_state_def split: if_splits)
  next
    case 4
    with assms show ?thesis
      by (cases "priv_finalizer (item w)")
         (auto simp: teardown_state_def at_exit_log_def split: if_splits)
  next
    case (5 result)
    with assms show ?thesis
      by (cases result)
         (auto simp: teardown_state_def init_project_construct_def Let_def split: if_splits)
  qed
qed

lemma teardown_steps_step:
  assumes "teardown_state w" and "step l w = Some w'"
  shows "teardown_steps w' = teardown_steps w @ filter teardown_label [l]"
proof (cases "teardown_label l \<or> (\<exists>result. l = Init_construct result)")
  case False
  with teardown_frame [OF assms(2)] show ?thesis
    by (simp add: teardown_steps_def)
next
  case True
  then consider "l = Finalizer_called" | "l = At_exit_stop" | "l = Log_thread_exit"
    | "l = At_exit_log" | result where "l = Init_construct result"
    by (cases l) auto
  then show ?thesis
  proof cases
    case 1
    with assms show ?thesis
      by (cases "priv_finalizer (item w)")
         (auto simp: teardown_state_def teardown_steps_def teardown_order_def split: if_splits)
  next
    case 2
    with assms show ?thesis
      by (auto simp: teardown_state_def teardown_steps_def teardown_order_def at_exit_stop_def
               split: if_splits)
  next
    case 3
    with assms show ?thesis
      by (auto simp: teardown_state_def teardown_steps_def teardown_order_def
               split: if_splits at_exit_pc.splits)
  next
    case 4
    with assms show ?thesis
      by (cases "priv_finalizer (item w)")
         (auto simp: teardown_state_def teardown_steps_def teardown_order_def at_exit_log_def
               split: if_splits)
  next
    case (5 result)
    with assms show ?thesis
      by (cases result)
         (auto simp: teardown_steps_def init_project_construct_def Let_def split: if_splits)
  qed
qed

lemma teardown_steps_exec:
  assumes "exec ls (ProjectListItem_init project_args from_startup) = Some w"
  shows "filter teardown_label ls = teardown_steps w"
  using assms
proof (induction ls arbitrary: w rule: rev_induct)
  case Nil
  then show ?case
    by (auto simp: ProjectListItem_init_def teardown_steps_def)
next
  case (snoc l ls)
  then obtain v where v: "exec ls (ProjectListItem_init project_args from_startup) = Some v"
    and s: "step l v = Some w"
    by (auto simp: exec_snoc)
  have "teardown_state v"
    using v teardown_state_init by (rule exec_invariant) (rule teardown_state_step)
  then have "teardown_steps w = teardown_steps v @ filter teardown_label [l]"
    using s by (rule teardown_steps_step)
  with snoc.IH [OF v] show ?case by simp
qed

lemma teardown_steps_prefix: "prefix (teardown_steps w) teardown_order"
  by (auto simp: teardown_steps_def take_is_prefix split: at_exit_pc.splits)

section \<open>The claims\<close>

text \<open>
  C1. In every execution of a wrapper the pool runs at most one worker. The start and
  finish signals the wrapper has emitted, followed by the ones whose calls still wait
  in the owner's queue, pair up: each start is answered by the finish of the same
  action before another start, and so do the emitted ones alone, up to the action that
  the next waiting call requires to be in flight. The names in the finish signals,
  emitted and waiting, followed by the names of the workers still in the pool, are a
  subsequence of the names handed to \<^verbatim>\<open>run\<close>, in the order of the calls.
\<close>

theorem one_action_in_flight_in_submission_order:
  assumes "exec ls (ProjectListItem_init project_args from_startup) = Some w"
  shows "length (active (workers_pool (item w))) \<le> 1 \<and>
         in_flight (signals w @ posted w) None =
           Some (if invoking w then Some (func_name (hd (active (workers_pool (item w)))))
                 else None) \<and>
         in_flight (signals w) None =
           Some (next_in_flight (posted w)
                   (if invoking w then Some (func_name (hd (active (workers_pool (item w)))))
                    else None)) \<and>
         subseq (finished (signals w @ posted w) @ pending w) (submitted ls) \<and>
         subseq (finished (signals w) @ pending w) (submitted ls) \<and>
         subseq (finished (signals w)) (submitted ls)"
proof -
  let ?cur = "if invoking w then Some (func_name (hd (active (workers_pool (item w)))))
              else None"
  have 1: "length (active (workers_pool (item w))) \<le> 1"
    using single_worker_exec [OF assms] by (simp add: single_worker_def)
  have 2: "in_flight (signals w @ posted w) None = Some ?cur"
    using paired_exec [OF assms] by (simp add: paired_def)
  then obtain c where c: "in_flight (signals w) None = Some c"
    and p: "in_flight (posted w) c = Some ?cur"
    by (auto simp: in_flight_append split: option.splits)
  from p have "c = next_in_flight (posted w) ?cur"
    by (rule in_flight_next)
  with c have 3: "in_flight (signals w) None = Some (next_in_flight (posted w) ?cur)"
    by simp
  have 4: "subseq (finished (signals w @ posted w) @ pending w) (submitted ls)"
    using assms by (rule exec_order)
  have "subseq (finished (signals w) @ pending w)
          (finished (signals w) @ finished (posted w) @ pending w)"
    by (intro list_emb_append_mono list_emb_append2) simp_all
  moreover have "subseq (finished (signals w) @ finished (posted w) @ pending w)
                   (submitted ls)"
    using 4 by (simp add: finished_append)
  ultimately have 5: "subseq (finished (signals w) @ pending w) (submitted ls)"
    by (rule subseq_order.order_trans)
  have "subseq (finished (signals w)) (finished (signals w) @ pending w)"
    by (rule list_emb_prefix) simp
  then have 6: "subseq (finished (signals w)) (submitted ls)"
    using 5 by (rule subseq_order.order_trans)
  from 1 2 3 4 5 6 show ?thesis by (intro conjI)
qed

theorem one_action_in_flight_in_submission_order_witness:
  "\<exists>w. exec [Init_construct (Inr example_project), Call_run ''build'' [],
              Call_run ''clean'' [], Worker_start, Worker_finish True example_project,
              Worker_start, Owner_deliver, Owner_deliver] example_item = Some w \<and>
        length (active (workers_pool (item w))) \<le> 1 \<and>
        signals w = [actionStarted ''build'', actionFinished ''build'' True] \<and>
        posted w = [stateChanged, stageChanged, actionStarted ''clean''] \<and>
        in_flight (signals w @ posted w) None = Some (Some ''clean'') \<and>
        in_flight (signals w) None = Some None \<and>
        subseq (finished (signals w)) [''build'', ''clean'']"
proof -
  let ?ls = "[Init_construct (Inr example_project), Call_run ''build'' [],
              Call_run ''clean'' [], Worker_start, Worker_finish True example_project,
              Worker_start, Owner_deliver, Owner_deliver]"
  have "case exec ?ls example_item of
          None \<Rightarrow> False
        | Some w \<Rightarrow> invoking w \<and> map func_name (active (workers_pool (item w))) = [''clean''] \<and>
            signals w = [actionStarted ''build'', actionFinished ''build'' True] \<and>
            posted w = [stateChanged, stageChanged, actionStarted ''clean'']"
    by code_simp
  then obtain w where h: "exec ?ls (ProjectListItem_init [''/tmp/blinky''] False) = Some w"
    and i: "invoking w" and a: "map func_name (active (workers_pool (item w))) = [''clean'']"
    and s: "signals w = [actionStarted ''build'', actionFinished ''build'' True]"
    and p: "posted w = [stateChanged, stageChanged, actionStarted ''clean'']"
    by (auto simp: example_item_def split: option.splits)
  from a have n: "func_name (hd (active (workers_pool (item w)))) = ''clean''"
    by (cases "active (workers_pool (item w))") auto
  have e: "exec ?ls example_item = Some w"
    using h by (simp add: example_item_def)
  have "length (active (workers_pool (item w))) \<le> 1 \<and>
        in_flight (signals w @ posted w) None = Some (Some ''clean'') \<and>
        in_flight (signals w) None = Some None \<and>
        subseq (finished (signals w)) [''build'', ''clean'']"
    using one_action_in_flight_in_submission_order [OF h] i n p by simp
  with e s p show ?thesis by (intro exI [of _ w]) simp
qed




text \<open>
  C3, as stated, fails: the invocation can begin before \<^verbatim>\<open>currentAction\<close> is set. The
  worker emits its start signal in the pool thread and goes on into the operation;
  \<^verbatim>\<open>actionStartedSlot\<close> is a queued call of the owner's thread. In this execution the
  worker is inside \<^verbatim>\<open>build\<close> while \<^verbatim>\<open>currentAction\<close> is still the empty string and
  \<^verbatim>\<open>actionStarted\<close> has not been emitted.
\<close>

theorem current_action_set_before_invocation_counterexample:
  "map_option invoking
     (exec [Init_construct (Inr example_project), Call_run ''build'' [], Worker_start]
        example_item) = Some True \<and>
   map_option shown_action
     (exec [Init_construct (Inr example_project), Call_run ''build'' [], Worker_start]
        example_item) = Some [] \<and>
   map_option signals
     (exec [Init_construct (Inr example_project), Call_run ''build'' [], Worker_start]
        example_item) = Some []"
  by code_simp

text \<open>
  C3, amended. \<^verbatim>\<open>actionStartedSlot\<close> stores the action's name before it sends
  \<^verbatim>\<open>actionStarted\<close>; \<^verbatim>\<open>actionFinishedSlot\<close> stores the result before it sends
  \<^verbatim>\<open>actionFinished\<close> and resets the name to the empty string only after. So in every
  execution each start and each finish signal of an action was sent while
  \<^verbatim>\<open>currentAction\<close> gave that action's name, and each finish signal while
  \<^verbatim>\<open>lastActionSucceed\<close> gave its result.
\<close>

theorem current_action_set_before_start_reset_after_finish:
  "emitted (actionStartedSlot action w) =
     emitted w @ [(actionStarted action, (item w)\<lparr>priv_current_action := action\<rparr>)] \<and>
   currentAction (item (actionStartedSlot action w)) = action \<and>
   (\<exists>snap. emitted (actionFinishedSlot action success w) =
             emitted w @ [(actionFinished action success, snap)] \<and>
           lastActionSucceed snap = success \<and>
           currentAction snap = currentAction (item w)) \<and>
   currentAction (item (actionFinishedSlot action success w)) = [] \<and>
   (exec ls (ProjectListItem_init project_args from_startup) = Some v \<longrightarrow>
      seen action_view v)"
proof -
  have 1: "emitted (actionStartedSlot action w) =
     emitted w @ [(actionStarted action, (item w)\<lparr>priv_current_action := action\<rparr>)]"
    by (simp add: actionStartedSlot_def emit_def)
  have 2: "currentAction (item (actionStartedSlot action w)) = action"
    by (simp add: actionStartedSlot_def emit_def currentAction_def)
  have 3: "\<exists>snap. emitted (actionFinishedSlot action success w) =
             emitted w @ [(actionFinished action success, snap)] \<and>
           lastActionSucceed snap = success \<and>
           currentAction snap = currentAction (item w)"
    by (simp add: actionFinishedSlot_def emit_def currentAction_def lastActionSucceed_def
                  Let_def)
  have 4: "currentAction (item (actionFinishedSlot action success w)) = []"
    by (simp add: actionFinishedSlot_def emit_def currentAction_def Let_def)
  have 5: "seen action_view v"
    if h: "exec ls (ProjectListItem_init project_args from_startup) = Some v"
    using h by (rule action_view_exec)
  from 1 2 3 4 5 show ?thesis by blast
qed

theorem current_action_set_before_start_reset_after_finish_witness:
  "\<exists>v. exec [Init_construct (Inr example_project), Call_run ''build'' [], Worker_start,
              Worker_finish True example_project, Call_run ''clean'' [], Worker_start,
              Owner_deliver, Owner_deliver, Owner_deliver, Owner_deliver, Owner_deliver]
          example_item = Some v \<and>
        signals v = [actionStarted ''build'', actionFinished ''build'' True, stateChanged,
                     stageChanged, actionStarted ''clean''] \<and>
        shown_action v = ''clean'' \<and>
        seen action_view v"
proof -
  let ?ls = "[Init_construct (Inr example_project), Call_run ''build'' [], Worker_start,
              Worker_finish True example_project, Call_run ''clean'' [], Worker_start,
              Owner_deliver, Owner_deliver, Owner_deliver, Owner_deliver, Owner_deliver]"
  have "case exec ?ls example_item of
          None \<Rightarrow> False
        | Some v \<Rightarrow>
            signals v = [actionStarted ''build'', actionFinished ''build'' True,
                         stateChanged, stageChanged, actionStarted ''clean''] \<and>
            shown_action v = ''clean''"
    by code_simp
  then obtain v where h: "exec ?ls (ProjectListItem_init [''/tmp/blinky''] False) = Some v"
    and s: "signals v = [actionStarted ''build'', actionFinished ''build'' True,
                         stateChanged, stageChanged, actionStarted ''clean'']"
    and c: "shown_action v = ''clean''"
    by (auto simp: example_item_def split: option.splits)
  have a: "seen action_view v"
    using current_action_set_before_start_reset_after_finish
            [where ls = ?ls and project_args = "[''/tmp/blinky'']" and from_startup = False
               and v = v, THEN conjunct2, THEN conjunct2, THEN conjunct2, THEN conjunct2] h
    by (rule mp)
  have "exec ?ls example_item = Some v"
    using h by (simp add: example_item_def)
  with s c a show ?thesis by (intro exI [of _ v]) simp
qed



text \<open>
  C5. When the constructor of the project raises, the initializer thread goes on to its
  wait instead of passing the exception on, and from then on through every later step
  the wrapper has no project, the \<^verbatim>\<open>state\<close> getter answers with the pseudo-state
  \<^verbatim>\<open>INIT_ERROR\<close> and changes nothing, and \<^verbatim>\<open>name\<close> is the first positional constructor
  argument, or \<^verbatim>\<open>'Undefined'\<close> when there was none.
\<close>

theorem construction_failure_is_permanent:
  assumes "exec (ls1 @ Init_construct (Inl e) # ls2)
             (ProjectListItem_init project_args from_startup) = Some w"
  shows "init_thread w \<noteq> Init_constructing \<and>
         project (item w) = None \<and>
         state (item w) = (Inr [(''INIT_ERROR'', True)], item w) \<and>
         name (item w) = (case project_args of [] \<Rightarrow> ''Undefined'' | a # _ \<Rightarrow> a)"
proof -
  from assms obtain w1 w2
    where 1: "exec ls1 (ProjectListItem_init project_args from_startup) = Some w1"
      and 2: "step (Init_construct (Inl e)) w1 = Some w2"
      and 3: "exec ls2 w2 = Some w"
    by (auto simp: exec_append split: option.splits)
  have "still_loading project_args (ProjectListItem_init project_args from_startup)"
    by (simp add: still_loading_def ProjectListItem_init_def)
  with 1 have "still_loading project_args w1"
    by (rule exec_invariant) (rule still_loading_step)
  then have "init_failed project_args w2"
    using 2 by (rule init_failed_construct)
  with 3 have "init_failed project_args w"
    by (rule exec_invariant) (rule init_failed_step)
  then show ?thesis
    by (simp add: init_failed_def state_def name_def fallback_name_def)
qed

theorem construction_failure_is_permanent_witness:
  "\<exists>w. exec ([Call_qmlLoaded] @ Init_construct (Inl ConstructionError) #
               [Init_notify, Get_state, Get_name, Finalizer_called])
          (ProjectListItem_init [''/tmp/blinky''] False) = Some w \<and>
        project (item w) = None \<and>
        state (item w) = (Inr [(''INIT_ERROR'', True)], item w) \<and>
        name (item w) = ''/tmp/blinky''"
proof -
  have "case exec ([Call_qmlLoaded] @ Init_construct (Inl ConstructionError) #
               [Init_notify, Get_state, Get_name, Finalizer_called])
          (ProjectListItem_init [''/tmp/blinky''] False) of None \<Rightarrow> False | Some w \<Rightarrow> True"
    by code_simp
  then obtain w where h: "exec ([Call_qmlLoaded] @ Init_construct (Inl ConstructionError) #
               [Init_notify, Get_state, Get_name, Finalizer_called])
          (ProjectListItem_init [''/tmp/blinky''] False) = Some w"
    by (auto split: option.splits)
  from construction_failure_is_permanent [OF h] h show ?thesis
    by (intro exI [of _ w]) simp
qed

text \<open>
  C6, as stated, fails: no call of the owner starts the teardown. In the first
  execution the project is constructed and nothing else is called on the wrapper; the
  runtime calls the finalizer and \<^verbatim>\<open>at_exit\<close> runs to its log record. In the second the
  owner has used every slot and getter of the wrapper, and \<^verbatim>\<open>at_exit\<close> has not been
  called.
\<close>

theorem teardown_by_explicit_disposal_counterexample:
  "map_option module_log
     (exec [Init_construct (Inr example_project), Finalizer_called, At_exit_stop,
            Log_thread_exit, At_exit_log] example_item) =
     Some [''destroyed Stm32pio project: blinky''] \<and>
   map_option at_exit_thread
     (exec [Init_construct (Inr example_project), Call_qmlLoaded, Init_notify,
            Call_run ''build'' [], Worker_start, Worker_finish True example_project,
            Get_state, Get_name, Get_currentStage, Get_currentAction,
            Get_lastActionSucceed, Get_fromStartup, Get_config] example_item) =
     Some Exit_not_called"
  by code_simp

text \<open>
  C6, amended. \<^verbatim>\<open>at_exit\<close> is registered as the finalizer of the wrapper when
  \<^verbatim>\<open>init_project\<close> has left its \<^verbatim>\<open>try\<close> statement, and not before. In every execution
  the steps of the teardown are a prefix of: the runtime calls the finalizer, the wait
  for the pool returns and the stop event of the logging worker is set, the logging
  thread exits, the wait for it returns and the record is logged; so each happens at
  most once and in this order. The stop event is set only when no worker runs or waits,
  the record is logged only when the logging thread has exited, and the log holds
  the record \<^verbatim>\<open>destroyed\<close> with the registered name once that step is taken, and nothing
  before.
\<close>

theorem at_exit_runs_from_finalizer_in_order:
  assumes "exec ls (ProjectListItem_init project_args from_startup) = Some w"
  shows "prefix (filter teardown_label ls)
           [Finalizer_called, At_exit_stop, Log_thread_exit, At_exit_log] \<and>
         (priv_finalizer (item w) = None \<longleftrightarrow> init_thread w = Init_constructing) \<and>
         (\<forall>w'. step At_exit_stop w = Some w' \<longrightarrow>
            waitForDone_returns (workers_pool (item w)) \<and>
            stopped (logging_worker (item w'))) \<and>
         (\<forall>w'. step At_exit_log w = Some w' \<longrightarrow>
            thread_finished (logging_worker (item w))) \<and>
         module_log w =
           (if At_exit_log \<in> set ls
            then [''destroyed '' @ finalizer_name (priv_finalizer (item w))]
            else [])"
proof -
  have ts: "teardown_state w"
    using assms teardown_state_init by (rule exec_invariant) (rule teardown_state_step)
  have fl: "filter teardown_label ls = teardown_steps w"
    using assms by (rule teardown_steps_exec)
  have 1: "prefix (filter teardown_label ls)
             [Finalizer_called, At_exit_stop, Log_thread_exit, At_exit_log]"
    using teardown_steps_prefix [of w] by (simp add: fl teardown_order_def)
  have "At_exit_log \<in> set ls \<longleftrightarrow> At_exit_log \<in> set (filter teardown_label ls)"
    by simp
  also have "\<dots> \<longleftrightarrow> at_exit_thread w = Exit_done"
    by (simp add: fl teardown_steps_def teardown_order_def split: at_exit_pc.splits)
  finally have 2: "At_exit_log \<in> set ls \<longleftrightarrow> at_exit_thread w = Exit_done" .
  have 3: "\<forall>w'. step At_exit_stop w = Some w' \<longrightarrow>
            waitForDone_returns (workers_pool (item w)) \<and>
            stopped (logging_worker (item w'))"
    by (auto simp: at_exit_stop_def split: if_splits)
  have 4: "\<forall>w'. step At_exit_log w = Some w' \<longrightarrow> thread_finished (logging_worker (item w))"
    by (auto split: if_splits option.splits)
  have 5: "priv_finalizer (item w) = None \<longleftrightarrow> init_thread w = Init_constructing"
    using ts by (simp add: teardown_state_def)
  have 6: "module_log w =
           (if At_exit_log \<in> set ls
            then [''destroyed '' @ finalizer_name (priv_finalizer (item w))]
            else [])"
    using ts by (simp add: 2 teardown_state_def)
  from 1 3 4 5 6 show ?thesis by blast
qed

theorem at_exit_runs_from_finalizer_in_order_witness:
  "\<exists>w w'. exec [Init_construct (Inr example_project), Call_run ''build'' [], Finalizer_called,
                Worker_start, Worker_finish True example_project]
            (ProjectListItem_init [''/tmp/blinky''] False) = Some w \<and>
          step At_exit_stop w = Some w' \<and>
          waitForDone_returns (workers_pool (item w)) \<and>
          stopped (logging_worker (item w')) \<and>
          module_log w = []"
proof -
  let ?ls = "[Init_construct (Inr example_project), Call_run ''build'' [], Finalizer_called,
              Worker_start, Worker_finish True example_project]"
  have "case exec ?ls (ProjectListItem_init [''/tmp/blinky''] False) of
          None \<Rightarrow> False
        | Some w \<Rightarrow> (case step At_exit_stop w of None \<Rightarrow> False | Some w' \<Rightarrow> True)"
    by code_simp
  then obtain w w' where h: "exec ?ls (ProjectListItem_init [''/tmp/blinky''] False) = Some w"
    and s: "step At_exit_stop w = Some w'"
    by (auto split: option.splits)
  have "At_exit_log \<notin> set ?ls"
    by simp
  with at_exit_runs_from_finalizer_in_order [OF h] s
  have "waitForDone_returns (workers_pool (item w)) \<and> stopped (logging_worker (item w')) \<and>
        module_log w = []"
    by auto
  with h s show ?thesis by (intro exI [of _ w] exI [of _ w']) simp
qed

text \<open>
  C7, as stated, fails: the \<^verbatim>\<open>state\<close> getter raises nothing while the project is
  loading or after its construction has failed; it answers with the pseudo-state. And
  \<^verbatim>\<open>run\<close> does not look at the finalizer: after \<^verbatim>\<open>at_exit\<close> has run to its end a
  submitted action is handed to the pool as before.
\<close>

theorem usage_errors_surface_counterexample:
  "state_answer example_item = Inr [(''LOADING'', True)] \<and>
   map_option state_answer (exec [Init_construct (Inl ConstructionError)] example_item) =
     Some (Inr [(''INIT_ERROR'', True)]) \<and>
   map_option pending
     (exec [Init_construct (Inr example_project), Finalizer_called, At_exit_stop,
            Log_thread_exit, At_exit_log, Call_run ''build'' []] example_item) =
     Some [''build'']"
  by code_simp

text \<open>
  C7, amended. While the wrapper has no project (it is loading, or the construction
  has failed), \<^verbatim>\<open>run\<close> raises \<^verbatim>\<open>AttributeError\<close> to its caller for every action name that
  \<^verbatim>\<open>None\<close> does not itself resolve, before it has changed anything; the \<^verbatim>\<open>state\<close> getter
  raises nothing there: it returns the stored pseudo-state and leaves the wrapper as
  it is.
\<close>

theorem run_raises_and_state_answers_without_project:
  assumes "project self = None"
  shows "(action \<notin> set NoneType_attrs \<longrightarrow> run action args self = Inl AttributeError) \<and>
         state self = (Inr (priv_state self), self)"
  using assms by (simp add: run_def getattr_def state_def)

theorem run_raises_and_state_answers_without_project_witness:
  "project (item example_item) = None \<and> ''build'' \<notin> set NoneType_attrs \<and>
   run ''build'' [] (item example_item) = Inl AttributeError \<and>
   state (item example_item) = (Inr [(''LOADING'', True)], item example_item)"
proof -
  have p: "project (item example_item) = None"
    by (simp add: example_item_def ProjectListItem_init_def)
  have n: "''build'' \<notin> set NoneType_attrs"
    by (simp add: NoneType_attrs_def)
  have s: "priv_state (item example_item) = [(''LOADING'', True)]"
    by (simp add: example_item_def ProjectListItem_init_def)
  from run_raises_and_state_answers_without_project [OF p, of "''build''" "[]"] p n s
  show ?thesis by simp
qed

lemma keys_after_pop:
  "set (map fst (filter (\<lambda>(k', v). k' \<noteq> k) st)) = set (map fst st) - {k}"
  by (induction st) auto

lemma keys_of_names:
  "map fst (map (\<lambda>(stage, v). (stage_name stage, v)) st) = map stage_name (map fst st)"
  by (induction st) auto

text \<open>
  C8. For a wrapper with a project the \<^verbatim>\<open>state\<close> getter returns a dictionary whenever
  the state computed by the project holds the key \<^verbatim>\<open>UNDEFINED\<close> (the \<^verbatim>\<open>pop\<close> raises
  \<^verbatim>\<open>KeyError\<close> otherwise), and no dictionary it returns has the key \<^verbatim>\<open>'UNDEFINED'\<close>; its
  keys are the names of the other stages of the computed state.
\<close>

theorem state_excludes_UNDEFINED:
  assumes "project self = Some p"
  shows "(UNDEFINED \<in> set (map fst (project_state p)) \<longrightarrow>
            (\<exists>m. fst (state self) = Inr m)) \<and>
         (\<forall>m. fst (state self) = Inr m \<longrightarrow>
            ''UNDEFINED'' \<notin> set (map fst m) \<and>
            set (map fst m) = stage_name ` (set (map fst (project_state p)) - {UNDEFINED}))"
proof (cases "UNDEFINED \<in> set (map fst (project_state p))")
  case False
  with assms have "fst (state self) = Inl KeyError"
    by (simp add: state_def dict_pop_def Let_def)
  with False show ?thesis by simp
next
  case True
  let ?m = "map (\<lambda>(stage, v). (stage_name stage, v))
              (filter (\<lambda>(k', v). k' \<noteq> UNDEFINED) (project_state p))"
  from True assms have s: "fst (state self) = Inr ?m"
    by (simp add: state_def dict_pop_def Let_def)
  have "set (map fst ?m) =
          set (map stage_name
                 (map fst (filter (\<lambda>(k', v). k' \<noteq> UNDEFINED) (project_state p))))"
    by (simp only: keys_of_names)
  also have "\<dots> =
          stage_name ` set (map fst (filter (\<lambda>(k', v). k' \<noteq> UNDEFINED) (project_state p)))"
    by (rule set_map)
  also have "\<dots> = stage_name ` (set (map fst (project_state p)) - {UNDEFINED})"
    by (simp only: keys_after_pop)
  finally have k: "set (map fst ?m) =
                     stage_name ` (set (map fst (project_state p)) - {UNDEFINED})" .
  have "''UNDEFINED'' \<notin> stage_name ` (set (map fst (project_state p)) - {UNDEFINED})"
    by (auto simp: stage_name_UNDEFINED)
  then have u: "''UNDEFINED'' \<notin> set (map fst ?m)"
    unfolding k .
  have a: "UNDEFINED \<in> set (map fst (project_state p)) \<longrightarrow>
             (\<exists>m. fst (state self) = Inr m)"
    using s by blast
  have b: "\<forall>m. fst (state self) = Inr m \<longrightarrow>
             ''UNDEFINED'' \<notin> set (map fst m) \<and>
             set (map fst m) = stage_name ` (set (map fst (project_state p)) - {UNDEFINED})"
  proof (intro allI impI)
    fix m
    assume "fst (state self) = Inr m"
    with s have m: "m = ?m" by simp
    show "''UNDEFINED'' \<notin> set (map fst m) \<and>
          set (map fst m) = stage_name ` (set (map fst (project_state p)) - {UNDEFINED})"
      unfolding m using u k by (rule conjI)
  qed
  from a b show ?thesis by (rule conjI)
qed

theorem state_excludes_UNDEFINED_witness:
  "\<exists>w. exec [Init_construct (Inr example_project)] example_item = Some w \<and>
        project (item w) = Some example_project \<and>
        UNDEFINED \<in> set (map fst (project_state example_project)) \<and>
        fst (state (item w)) = Inr [(''EMPTY'', True), (''INITIALIZED'', False)] \<and>
        ''UNDEFINED'' \<notin> set (map fst [(''EMPTY'', True), (''INITIALIZED'', False)])"
proof -
  have "case exec [Init_construct (Inr example_project)] example_item of
          None \<Rightarrow> False
        | Some w \<Rightarrow> project (item w) = Some example_project \<and>
            fst (state (item w)) = Inr [(''EMPTY'', True), (''INITIALIZED'', False)]"
    by code_simp
  then obtain w where h: "exec [Init_construct (Inr example_project)] example_item = Some w"
    and p: "project (item w) = Some example_project"
    and f: "fst (state (item w)) = Inr [(''EMPTY'', True), (''INITIALIZED'', False)]"
    by (auto split: option.splits)
  have u: "UNDEFINED \<in> set (map fst (project_state example_project))"
    by (simp add: example_project_def)
  from state_excludes_UNDEFINED [OF p, THEN conjunct2, rule_format, OF f]
  have "''UNDEFINED'' \<notin> set (map fst [(''EMPTY'', True), (''INITIALIZED'', False)])"
    by (rule conjunct1)
  with h p u f show ?thesis by (intro exI [of _ w]) simp
qed

text \<open>
  C9. \<^verbatim>\<open>currentStage\<close> returns the cached stage and leaves the wrapper as it is, whatever
  the project's state would be. A step changes the cached stage only when it is a call
  of the \<^verbatim>\<open>state\<close> getter or the initializer's construction of the project; the finish
  of an action and every other step leave it as it was. The \<^verbatim>\<open>state\<close> getter of a
  wrapper with a project stores the name of the computed state's current stage.
\<close>

theorem currentStage_reads_cache:
  "currentStage self = (priv_current_stage self, self) \<and>
   currentStage (self\<lparr>project := q\<rparr>) = (priv_current_stage self, self\<lparr>project := q\<rparr>) \<and>
   (step l w = Some w' \<and> l \<noteq> Get_state \<and> (\<forall>result. l \<noteq> Init_construct result) \<longrightarrow>
      priv_current_stage (item w') = priv_current_stage (item w)) \<and>
   (project self = Some p \<longrightarrow>
      priv_current_stage (snd (state self)) =
        stage_name (state_current_stage (project_state p)))"
proof -
  have 1: "currentStage self = (priv_current_stage self, self)"
    by (simp add: currentStage_def)
  have 2: "currentStage (self\<lparr>project := q\<rparr>) =
             (priv_current_stage self, self\<lparr>project := q\<rparr>)"
    by (simp add: currentStage_def)
  have 3: "priv_current_stage (item w') = priv_current_stage (item w)"
    if s: "step l w = Some w'" and g: "l \<noteq> Get_state"
      and c: "\<forall>result. l \<noteq> Init_construct result"
  proof (cases l)
    case Owner_deliver
    from step_deliver [OF s [unfolded Owner_deliver]] obtain call calls
      where w': "w' = deliver call (w\<lparr>owner_queue := calls\<rparr>)"
      by blast
    show ?thesis
      unfolding w' by (cases call) (auto simp: slot_defs)
  qed (use s g c in \<open>auto simp: slot_defs
                        split: if_splits option.splits list.splits sum.splits\<close>)
  have 4: "project self = Some p \<longrightarrow>
      priv_current_stage (snd (state self)) =
        stage_name (state_current_stage (project_state p))"
    by (auto simp: state_def dict_pop_def Let_def)
  from 1 2 3 4 show ?thesis by blast
qed

theorem currentStage_reads_cache_witness:
  "\<exists>w w'. exec [Init_construct (Inr example_project), Call_run ''build'' [], Worker_start]
            example_item = Some w \<and>
          step (Worker_finish True (example_project\<lparr>project_state := [(UNDEFINED, True),
                  (EMPTY, True), (INITIALIZED, True)]\<rparr>)) w = Some w' \<and>
          priv_current_stage (item w') = ''Initialized'' \<and>
          priv_current_stage (item w) = ''Initialized'' \<and>
          priv_current_stage (snd (state (item w'))) = ''INITIALIZED''"
proof -
  let ?ls = "[Init_construct (Inr example_project), Call_run ''build'' [], Worker_start]"
  let ?p = "example_project\<lparr>project_state := [(UNDEFINED, True),
                  (EMPTY, True), (INITIALIZED, True)]\<rparr>"
  have "case exec ?ls example_item of
          None \<Rightarrow> False
        | Some w \<Rightarrow> priv_current_stage (item w) = ''Initialized'' \<and>
           (case step (Worker_finish True ?p) w of
              None \<Rightarrow> False
            | Some w' \<Rightarrow> project (item w') = Some ?p \<and>
                stage_name (state_current_stage (project_state ?p)) = ''INITIALIZED'')"
    by code_simp
  then obtain w w' where h: "exec ?ls example_item = Some w"
    and c: "priv_current_stage (item w) = ''Initialized''"
    and s: "step (Worker_finish True ?p) w = Some w'"
    and p: "project (item w') = Some ?p"
    and n: "stage_name (state_current_stage (project_state ?p)) = ''INITIALIZED''"
    by (auto split: option.splits)
  have "priv_current_stage (item w') = priv_current_stage (item w)"
    using currentStage_reads_cache [of "item w" None "Worker_finish True ?p" w w' ?p] s
    by simp
  moreover have "priv_current_stage (snd (state (item w'))) = ''INITIALIZED''"
    using currentStage_reads_cache [of "item w'" None "Worker_finish True ?p" w w' ?p] p n
    by simp
  ultimately show ?thesis
    using h c s by (intro exI [of _ w] exI [of _ w']) simp
qed

text \<open>
  C10. The constructor sets the success flag to true, and in every execution
  \<^verbatim>\<open>lastActionSucceed\<close> stays true as long as no \<^verbatim>\<open>actionFinished\<close> has been emitted: before
  the first finish it answers as it does after a successful action.
\<close>

theorem lastActionSucceed_true_before_first_finish:
  assumes "exec ls (ProjectListItem_init project_args from_startup) = Some w"
    and "finished (signals w) = []"
  shows "lastActionSucceed (item (ProjectListItem_init project_args from_startup)) = True \<and>
         lastActionSucceed (item w) = True"
proof -
  have "no_finish_succeed (ProjectListItem_init project_args from_startup)"
    by (simp add: no_finish_succeed_def ProjectListItem_init_def)
  with assms(1) have "no_finish_succeed w"
    by (rule exec_invariant) (rule no_finish_succeed_step)
  with assms(2) show ?thesis
    by (simp add: no_finish_succeed_def lastActionSucceed_def ProjectListItem_init_def)
qed

theorem lastActionSucceed_true_before_first_finish_witness:
  "\<exists>w. exec [Init_construct (Inr example_project), Call_run ''build'' [], Worker_start]
          (ProjectListItem_init [''/tmp/blinky''] False) = Some w \<and>
        finished (signals w) = [] \<and>
        lastActionSucceed (item (ProjectListItem_init [''/tmp/blinky''] False)) = True \<and>
        lastActionSucceed (item w) = True"
proof -
  have "case exec [Init_construct (Inr example_project), Call_run ''build'' [], Worker_start]
               (ProjectListItem_init [''/tmp/blinky''] False) of
          None \<Rightarrow> False
        | Some w \<Rightarrow> finished (signals w) = []"
    by code_simp
  then obtain w
    where h: "exec [Init_construct (Inr example_project), Call_run ''build'' [], Worker_start]
                (ProjectListItem_init [''/tmp/blinky''] False) = Some w"
      and f: "finished (signals w) = []"
    by (auto split: option.splits)
  from lastActionSucceed_true_before_first_finish [OF h f] h f show ?thesis
    by (intro exI [of _ w]) simp
qed

end
